theory Spec2Isabelle
  imports Main "HOL-Library.Sublist"
begin

section \<open>Strings as the converter uses them\<close>

text \<open>
  Text is a list of characters.  The backslash cannot be written inside a string
  literal, so it gets a name of its own.
\<close>

abbreviation bs :: char where
  "bs \<equiv> CHR 0x5C"

abbreviation nl :: char where
  "nl \<equiv> CHR 0x0A"

text \<open>
  \<^verbatim>\<open>str.replace(old, new)\<close>: every occurrence of \<open>old\<close> is replaced, scanning from the
  left and resuming behind each replaced occurrence, so occurrences never overlap and
  inserted text is not scanned again.  For an empty \<open>old\<close> Python puts \<open>new\<close> at both ends
  and between all characters.
\<close>

function (sequential) str_replace :: "'a list \<Rightarrow> 'a list \<Rightarrow> 'a list \<Rightarrow> 'a list" where
  "str_replace [] new s = new @ concat (map (\<lambda>c. c # new) s)"
| "str_replace (a # old) new [] = []"
| "str_replace (a # old) new (x # xs) =
     (if prefix (a # old) (x # xs)
      then new @ str_replace (a # old) new (drop (length old) xs)
      else x # str_replace (a # old) new xs)"
  by pat_completeness auto
termination
  by (relation "measure (\<lambda>(old, new, s). length s)") auto

text \<open>\<^verbatim>\<open>sub in s\<close> on strings: \<open>sub\<close> occurs somewhere in \<open>s\<close>.\<close>

fun str_in :: "'a list \<Rightarrow> 'a list \<Rightarrow> bool" where
  "str_in sub [] = (sub = [])"
| "str_in sub (x # xs) = (prefix sub (x # xs) \<or> str_in sub xs)"

section \<open>The escape codec (utils.py)\<close>

text \<open>
  \<^verbatim>\<open>LATEX_SPECIAL_CHARS\<close>: a dictionary literal; iteration follows the order in which the
  entries are written, so it is an association list.
\<close>

definition LATEX_SPECIAL_CHARS :: "(char \<times> string) list" where
  "LATEX_SPECIAL_CHARS =
     [(CHR ''&'', bs # ''&''),
      (CHR ''%'', bs # ''%''),
      (CHR ''$'', bs # ''$''),
      (CHR ''#'', bs # ''#''),
      (CHR ''_'', bs # ''_''),
      (CHR ''{'', bs # ''{''),
      (CHR ''}'', bs # ''}''),
      (CHR ''~'', bs # ''textasciitilde{}''),
      (CHR ''^'', bs # ''textasciicircum{}''),
      (bs, bs # ''textbackslash{}'')]"

text \<open>
  \<^verbatim>\<open>escape_latex\<close>: the empty text is returned at once; otherwise the backslash is replaced
  first, then every other entry of the table in order, each by a replacement over the
  whole text produced so far.
\<close>

definition escape_step :: "string \<Rightarrow> char \<times> string \<Rightarrow> string" where
  "escape_step text ce = (if fst ce \<noteq> bs then str_replace [fst ce] (snd ce) text else text)"

definition escape_latex :: "string \<Rightarrow> string" where
  "escape_latex text =
     (if text = [] then []
      else foldl escape_step (str_replace [bs] (bs # ''textbackslash{}'') text)
             LATEX_SPECIAL_CHARS)"

text \<open>\<^verbatim>\<open>unescape_latex\<close>: every entry in table order, escape sequence back to its character.\<close>

definition unescape_step :: "string \<Rightarrow> char \<times> string \<Rightarrow> string" where
  "unescape_step text ce = str_replace (snd ce) [fst ce] text"

definition unescape_latex :: "string \<Rightarrow> string" where
  "unescape_latex text =
     (if text = [] then [] else foldl unescape_step text LATEX_SPECIAL_CHARS)"

text \<open>The sequence the table assigns to a character (the character itself when it has none).\<close>

definition table_escape :: "char \<Rightarrow> string" where
  "table_escape c = (case map_of LATEX_SPECIAL_CHARS c of Some e \<Rightarrow> e | None \<Rightarrow> [c])"

text \<open>The replacements of \<^verbatim>\<open>escape_latex\<close> without its test for the empty text.\<close>

definition escape_chain :: "string \<Rightarrow> string" where
  "escape_chain text =
     foldl escape_step (str_replace [bs] (bs # ''textbackslash{}'') text) LATEX_SPECIAL_CHARS"

text \<open>
  What \<^verbatim>\<open>escape_latex\<close> makes of one character: the table entry, except for the
  backslash, whose braces are escaped again.
\<close>

definition escape_char :: "char \<Rightarrow> string" where
  "escape_char c =
     (if c = bs then bs # ''textbackslash'' @ [bs, CHR ''{'', bs, CHR ''}''] else table_escape c)"

section \<open>Pieces of Python's string and regular-expression library\<close>

text \<open>
  A character stands for a code point below 256.  \<^verbatim>\<open>str.strip()\<close> and the pattern \<^verbatim>\<open>\s\<close>
  use the same whitespace test: tab, line feed, vertical tab, form feed, carriage return,
  the four separators 28 to 31, the space, and of the upper half 133 and 160.
\<close>

definition is_space :: "char \<Rightarrow> bool" where
  "is_space c = (of_char c \<in> {9, 10, 11, 12, 13, 28, 29, 30, 31, 32, 133, 160 :: nat})"

definition strip :: "string \<Rightarrow> string" where
  "strip s = rev (dropWhile is_space (rev (dropWhile is_space s)))"

text \<open>
  \<^verbatim>\<open>s.split(sep)\<close> for the separator \<open>a # sep\<close> (Python refuses an empty separator, and
  every call here passes a literal one): the pieces between the occurrences of the
  separator, found from the left without overlap; one piece more than occurrences.
\<close>

function split_acc :: "'a \<Rightarrow> 'a list \<Rightarrow> 'a list \<Rightarrow> 'a list \<Rightarrow> 'a list list" where
  "split_acc a sep cur [] = [rev cur]"
| "split_acc a sep cur (x # xs) =
     (if prefix (a # sep) (x # xs)
      then rev cur # split_acc a sep [] (drop (length sep) xs)
      else split_acc a sep (x # cur) xs)"
  by pat_completeness auto
termination
  by (relation "measure (\<lambda>(a, sep, cur, s). length s)") auto

definition str_split :: "'a \<Rightarrow> 'a list \<Rightarrow> 'a list \<Rightarrow> 'a list list" where
  "str_split a sep s = split_acc a sep [] s"

text \<open>A literal at the start of the text: the text behind it.\<close>

definition strip_prefix :: "'a list \<Rightarrow> 'a list \<Rightarrow> 'a list option" where
  "strip_prefix p s = (if prefix p s then Some (drop (length p) s) else None)"

text \<open>
  \<^verbatim>\<open>[^c]+\<close> followed by the character \<open>c\<close>: the longest run of other characters, which must
  not be empty and must be followed by \<open>c\<close>.  Giving characters back cannot help, since
  every character of the run differs from \<open>c\<close>.  The result is the run and the text
  behind the closing \<open>c\<close>.
\<close>

definition until_char :: "char \<Rightarrow> string \<Rightarrow> (string \<times> string) option" where
  "until_char c s =
     (let g = takeWhile (\<lambda>x. x \<noteq> c) s; r = dropWhile (\<lambda>x. x \<noteq> c) s
      in if g \<noteq> [] \<and> r \<noteq> [] then Some (g, tl r) else None)"

text \<open>
  \<^verbatim>\<open>(.*?)\<close> followed by a literal, with \<^verbatim>\<open>re.DOTALL\<close>: the shortest text in front of an
  occurrence of the literal, that is, the text in front of its first occurrence; the
  result is that text and the text behind the occurrence.
\<close>

fun lazy_until :: "string \<Rightarrow> string \<Rightarrow> (string \<times> string) option" where
  "lazy_until lit [] = (if lit = [] then Some ([], []) else None)"
| "lazy_until lit (x # xs) =
     (if prefix lit (x # xs) then Some ([], drop (length lit) (x # xs))
      else map_option (\<lambda>(g, r). (x # g, r)) (lazy_until lit xs))"

text \<open>
  A match object: where the match starts and ends, and its groups.  \<^verbatim>\<open>group(k)\<close> of a
  pattern with fewer than \<open>k\<close> groups raises IndexError in Python; every pattern below
  has a fixed number of groups and is only asked for those, so that case is unreachable
  and yields the empty text here.
\<close>

record rmatch =
  m_start :: nat
  m_end :: nat
  m_groups :: "string list"

definition group :: "rmatch \<Rightarrow> nat \<Rightarrow> string" where
  "group m k = (if 0 < k \<and> k \<le> length (m_groups m) then m_groups m ! (k - 1) else [])"

text \<open>
  A pattern is given by its match at the start of a text: the groups and the text left
  behind the match.  \<^verbatim>\<open>re.search\<close> tries the pattern at every position from the left;
  the first position where it matches wins.
\<close>

type_synonym pattern = "string \<Rightarrow> (string list \<times> string) option"

fun re_search :: "pattern \<Rightarrow> string \<Rightarrow> rmatch option" where
  "re_search p [] =
     map_option (\<lambda>(gs, r). \<lparr>m_start = 0, m_end = 0, m_groups = gs\<rparr>) (p [])"
| "re_search p (x # xs) =
     (case p (x # xs) of
        Some (gs, r) \<Rightarrow>
          Some \<lparr>m_start = 0, m_end = length (x # xs) - length r, m_groups = gs\<rparr>
      | None \<Rightarrow>
          map_option (\<lambda>m. m\<lparr>m_start := Suc (m_start m), m_end := Suc (m_end m)\<rparr>)
            (re_search p xs))"

section \<open>The patterns of docx.py\<close>

text \<open>\<^verbatim>\<open>\{([^}]+)\}\<close>: one argument in braces.\<close>

definition brace_arg :: "string \<Rightarrow> (string \<times> string) option" where
  "brace_arg s =
     (case strip_prefix ''{'' s of None \<Rightarrow> None | Some r \<Rightarrow> until_char (CHR ''}'') r)"

text \<open>
  \<^verbatim>\<open>\\textbf\{([^}]+)\}\<close>, \<^verbatim>\<open>\\textit\{([^}]+)\}\<close>, \<^verbatim>\<open>\\underline\{([^}]+)\}\<close>: a backslash, the
  command name and one argument in braces.
\<close>

definition pat_command :: "string \<Rightarrow> pattern" where
  "pat_command cmd s =
     (case strip_prefix (bs # cmd) s of None \<Rightarrow> None
      | Some r \<Rightarrow> (case brace_arg r of None \<Rightarrow> None | Some (g, rest) \<Rightarrow> Some ([g], rest)))"

text \<open>\<^verbatim>\<open>\\href\{([^}]+)\}\{([^}]+)\}\<close>\<close>

definition pat_href :: pattern where
  "pat_href s =
     (case strip_prefix (bs # ''href'') s of None \<Rightarrow> None
      | Some r \<Rightarrow>
          (case brace_arg r of None \<Rightarrow> None
           | Some (url, r') \<Rightarrow>
               (case brace_arg r' of None \<Rightarrow> None
                | Some (txt, rest) \<Rightarrow> Some ([url, txt], rest))))"

text \<open>
  \<^verbatim>\<open>\\(?:sub)*section\{([^}]+)\}\<close>.  The repetition takes every \<^verbatim>\<open>sub\<close> it finds; taking
  fewer cannot help, since \<^verbatim>\<open>section\<close> does not start where a \<^verbatim>\<open>sub\<close> starts.
\<close>

fun skip_subs :: "string \<Rightarrow> string" where
  "skip_subs (a # b # c # r) = (if [a, b, c] = ''sub'' then skip_subs r else a # b # c # r)"
| "skip_subs s = s"

definition pat_section :: pattern where
  "pat_section s =
     (case strip_prefix [bs] s of None \<Rightarrow> None
      | Some r \<Rightarrow>
          (case strip_prefix ''section'' (skip_subs r) of None \<Rightarrow> None
           | Some r' \<Rightarrow>
               (case brace_arg r' of None \<Rightarrow> None | Some (g, rest) \<Rightarrow> Some ([g], rest))))"

text \<open>\<^verbatim>\<open>\\begin\{document\}(.*?)\\end\{document\}\<close> and the same for \<^verbatim>\<open>center\<close>, both DOTALL.\<close>

definition pat_environment :: "string \<Rightarrow> pattern" where
  "pat_environment name s =
     (case strip_prefix (bs # ''begin{'' @ name @ ''}'') s of None \<Rightarrow> None
      | Some r \<Rightarrow>
          (case lazy_until (bs # ''end{'' @ name @ ''}'') r of None \<Rightarrow> None
           | Some (g, rest) \<Rightarrow> Some ([g], rest)))"

text \<open>\<^verbatim>\<open>\\begin\{tabular\}\{[^}]+\}(.*?)\\end\{tabular\}\<close>, DOTALL; the column argument is no group.\<close>

definition pat_tabular :: pattern where
  "pat_tabular s =
     (case strip_prefix (bs # ''begin{tabular}'') s of None \<Rightarrow> None
      | Some r \<Rightarrow>
          (case brace_arg r of None \<Rightarrow> None
           | Some (cols, r') \<Rightarrow>
               (case lazy_until (bs # ''end{tabular}'') r' of None \<Rightarrow> None
                | Some (g, rest) \<Rightarrow> Some ([g], rest))))"

text \<open>
  \<^verbatim>\<open>\\includegraphics(?:\[[^\]]+\])?\{([^}]+)\}\<close>: the options in square brackets are tried
  first; when the pattern fails with them it is tried without.
\<close>

definition pat_includegraphics :: pattern where
  "pat_includegraphics s =
     (case strip_prefix (bs # ''includegraphics'') s of None \<Rightarrow> None
      | Some r \<Rightarrow>
          (let with_options =
                 (case strip_prefix ''['' r of None \<Rightarrow> None
                  | Some r1 \<Rightarrow>
                      (case until_char (CHR '']'') r1 of None \<Rightarrow> None
                       | Some (opts, r2) \<Rightarrow> brace_arg r2))
           in case (case with_options of Some res \<Rightarrow> Some res | None \<Rightarrow> brace_arg r) of
                None \<Rightarrow> None
              | Some (g, rest) \<Rightarrow> Some ([g], rest)))"

text \<open>
  \<^verbatim>\<open>\\item\s+([^\\\n]+)\<close>: the whitespace run is taken whole first and then given back one
  character at a time (never below one) until a non-empty run of characters other than
  backslash and line feed follows it.
\<close>

definition item_char :: "char \<Rightarrow> bool" where
  "item_char c = (c \<noteq> bs \<and> c \<noteq> nl)"

fun item_backtrack :: "nat \<Rightarrow> string \<Rightarrow> (string \<times> string) option" where
  "item_backtrack 0 r = None"
| "item_backtrack (Suc k) r =
     (let g = takeWhile item_char (drop (Suc k) r)
      in if g \<noteq> [] then Some (g, dropWhile item_char (drop (Suc k) r))
         else item_backtrack k r)"

definition pat_item :: pattern where
  "pat_item s =
     (case strip_prefix (bs # ''item'') s of None \<Rightarrow> None
      | Some r \<Rightarrow>
          (case item_backtrack (length (takeWhile is_space r)) r of None \<Rightarrow> None
           | Some (g, rest) \<Rightarrow> Some ([g], rest)))"

text \<open>
  \<^verbatim>\<open>\n\s*\n\<close>: a line feed, then the whitespace run, given back one character at a time
  until a line feed follows.
\<close>

fun blank_backtrack :: "nat \<Rightarrow> string \<Rightarrow> string option" where
  "blank_backtrack 0 r = strip_prefix [nl] r"
| "blank_backtrack (Suc k) r =
     (case strip_prefix [nl] (drop (Suc k) r) of
        Some rest \<Rightarrow> Some rest
      | None \<Rightarrow> blank_backtrack k r)"

definition pat_blank :: pattern where
  "pat_blank s =
     (case strip_prefix [nl] s of None \<Rightarrow> None
      | Some r \<Rightarrow>
          (case blank_backtrack (length (takeWhile is_space r)) r of None \<Rightarrow> None
           | Some rest \<Rightarrow> Some ([], rest)))"

text \<open>
  The loops over matches end because every pattern used in a loop consumes at least one
  character.
\<close>

definition consuming :: "pattern \<Rightarrow> bool" where
  "consuming p = (\<forall>s gs r. p s = Some (gs, r) \<longrightarrow> length r < length s)"

lemma consumingD: "consuming p \<Longrightarrow> p s = Some (gs, r) \<Longrightarrow> length r < length s"
  unfolding consuming_def by blast

lemma strip_prefix_length:
  "strip_prefix p s = Some r \<Longrightarrow> length r + length p = length s"
  by (auto simp: strip_prefix_def prefix_def split: if_splits)

lemma until_char_length:
  "until_char c s = Some (g, r) \<Longrightarrow> length r < length s"
proof -
  assume a: "until_char c s = Some (g, r)"
  have "length (dropWhile (\<lambda>x. x \<noteq> c) s) \<le> length s" by (rule length_dropWhile_le)
  with a show ?thesis
    by (cases "dropWhile (\<lambda>x. x \<noteq> c) s") (auto simp: until_char_def Let_def split: if_splits)
qed

lemma brace_arg_length: "brace_arg s = Some (g, r) \<Longrightarrow> length r < length s"
  by (auto simp: brace_arg_def split: option.splits dest!: strip_prefix_length until_char_length)

lemma lazy_until_length: "lazy_until lit s = Some (g, r) \<Longrightarrow> length r \<le> length s"
  by (induction s arbitrary: g r) (auto split: if_splits)

lemma consuming_pat_command: "consuming (pat_command cmd)"
  by (auto simp: consuming_def pat_command_def split: option.splits
      dest!: strip_prefix_length brace_arg_length)

lemma consuming_pat_href: "consuming pat_href"
  by (auto simp: consuming_def pat_href_def split: option.splits
      dest!: strip_prefix_length brace_arg_length)

lemma item_backtrack_length: "item_backtrack k r = Some (g, rest) \<Longrightarrow> length rest \<le> length r"
proof (induction k)
  case 0 then show ?case by simp
next
  case (Suc k)
  have "length (dropWhile item_char (drop (Suc k) r)) \<le> length (drop (Suc k) r)"
    by (rule length_dropWhile_le)
  with Suc show ?case by (auto simp: Let_def split: if_splits)
qed

lemma consuming_pat_item: "consuming pat_item"
  by (auto simp: consuming_def pat_item_def split: option.splits
      dest!: strip_prefix_length item_backtrack_length)

lemma blank_backtrack_length: "blank_backtrack k r = Some rest \<Longrightarrow> length rest \<le> length r"
proof (induction k)
  case 0 then show ?case by (auto split: option.splits dest!: strip_prefix_length)
next
  case (Suc k) then show ?case by (auto split: option.splits dest!: strip_prefix_length)
qed

lemma consuming_pat_blank: "consuming pat_blank"
  by (auto simp: consuming_def pat_blank_def split: option.splits
      dest!: strip_prefix_length blank_backtrack_length)

lemma re_search_bounds:
  assumes "consuming p" and "re_search p s = Some m"
  shows "m_start m < m_end m \<and> m_end m \<le> length s"
  using assms(2)
proof (induction s arbitrary: m)
  case Nil
  then obtain gs r where "p [] = Some (gs, r)" by auto
  from consumingD[OF assms(1) this] show ?case by simp
next
  case (Cons x xs)
  show ?case
  proof (cases "p (x # xs)")
    case None
    with Cons.prems obtain m' where m': "re_search p xs = Some m'"
      and m: "m = m'\<lparr>m_start := Suc (m_start m'), m_end := Suc (m_end m')\<rparr>" by auto
    from Cons.IH[OF m'] m show ?thesis by simp
  next
    case (Some a)
    obtain gs r where a: "a = (gs, r)" by (cases a)
    from Some a have "p (x # xs) = Some (gs, r)" by simp
    from consumingD[OF assms(1) this] have "length r < length (x # xs)" .
    with Some a Cons.prems show ?thesis by auto
  qed
qed

text \<open>\<^verbatim>\<open>re.split(r'\n\s*\n', s)\<close>: the pieces between the matches, found from the left.\<close>

function re_split_blank :: "string \<Rightarrow> string list" where
  "re_split_blank s =
     (case re_search pat_blank s of
        None \<Rightarrow> [s]
      | Some m \<Rightarrow> take (m_start m) s # re_split_blank (drop (m_end m) s))"
  by pat_completeness auto
termination
  by (relation "measure length") (use re_search_bounds[OF consuming_pat_blank] in force)+

text \<open>\<^verbatim>\<open>re.findall\<close> with the item pattern: group 1 of every match, found from the left.\<close>

function re_findall_item :: "string \<Rightarrow> string list" where
  "re_findall_item s =
     (case re_search pat_item s of
        None \<Rightarrow> []
      | Some m \<Rightarrow> group m 1 # re_findall_item (drop (m_end m) s))"
  by pat_completeness auto
termination
  by (relation "measure length") (use re_search_bounds[OF consuming_pat_item] in force)+

section \<open>The Word document built by DocxGenerator (docx.py)\<close>

text \<open>
  The generator appends to the document; the model returns what each call appends.  A run
  carries its text and the three flags the scanner can set.  A table is the grid
  \<^verbatim>\<open>add_table(rows, cols)\<close> creates, every cell empty until it is assigned.
\<close>

record run =
  run_text :: string
  run_bold :: bool
  run_italic :: bool
  run_underline :: bool

datatype element =
    Heading nat string
  | Paragraph "run list"
  | StyledParagraph string string
  | TextParagraph string
  | CenteredParagraph string
  | Table "string list list"
  | Picture string

text \<open>\<^verbatim>\<open>paragraph.add_run(text)\<close>: a run with no flag set.\<close>

definition add_run :: "string \<Rightarrow> run" where
  "add_run t = \<lparr>run_text = t, run_bold = False, run_italic = False, run_underline = False\<rparr>"

datatype fmt_type = Bold | Italic | Underline | Hyperlink

definition patterns :: "(pattern \<times> fmt_type) list" where
  "patterns =
     [(pat_command ''textbf'', Bold),
      (pat_command ''textit'', Italic),
      (pat_command ''underline'', Underline),
      (pat_href, Hyperlink)]"

text \<open>
  The inner \<^verbatim>\<open>for\<close> loop of \<^verbatim>\<open>_parse_inline_formatting\<close>: a pattern's match replaces the
  candidate when there is none yet or when it starts strictly before it.
\<close>

definition next_step ::
  "string \<Rightarrow> (rmatch \<times> fmt_type) option \<Rightarrow> pattern \<times> fmt_type \<Rightarrow> (rmatch \<times> fmt_type) option" where
  "next_step rest nxt pf =
     (case re_search (fst pf) rest of
        None \<Rightarrow> nxt
      | Some match \<Rightarrow>
          (case nxt of
             None \<Rightarrow> Some (match, snd pf)
           | Some (next_match, next_type) \<Rightarrow>
               if m_start match < m_start next_match then Some (match, snd pf) else nxt))"

definition find_next :: "string \<Rightarrow> (rmatch \<times> fmt_type) option" where
  "find_next rest = foldl (next_step rest) None patterns"

text \<open>The run added for a match: group 2 unflagged for a hyperlink, else group 1 with its flag.\<close>

definition match_run :: "rmatch \<Rightarrow> fmt_type \<Rightarrow> run" where
  "match_run next_match next_type =
     (if next_type = Hyperlink then add_run (unescape_latex (group next_match 2))
      else
        let r = add_run (unescape_latex (group next_match 1))
        in if next_type = Bold then r\<lparr>run_bold := True\<rparr>
           else if next_type = Italic then r\<lparr>run_italic := True\<rparr>
           else if next_type = Underline then r\<lparr>run_underline := True\<rparr>
           else r)"

lemma find_next_source:
  "find_next rest = Some (m, ty) \<Longrightarrow> \<exists>p. consuming p \<and> re_search p rest = Some m"
proof -
  have step: "(nxt = None \<or> (\<exists>m ty p. nxt = Some (m, ty) \<and> consuming p \<and> re_search p rest = Some m))
      \<Longrightarrow> consuming (fst pf)
      \<Longrightarrow> (next_step rest nxt pf = None
           \<or> (\<exists>m ty p. next_step rest nxt pf = Some (m, ty) \<and> consuming p \<and> re_search p rest = Some m))"
    for nxt pf
    by (auto simp: next_step_def split: option.splits)
  have "find_next rest = None
        \<or> (\<exists>m ty p. find_next rest = Some (m, ty) \<and> consuming p \<and> re_search p rest = Some m)"
    unfolding find_next_def patterns_def foldl_Cons foldl_Nil
    by (intro step) (simp_all add: consuming_pat_command consuming_pat_href)
  then show "find_next rest = Some (m, ty) \<Longrightarrow> ?thesis" by auto
qed

text \<open>
  \<^verbatim>\<open>_parse_inline_formatting\<close>.  The argument is the unconsumed text \<^verbatim>\<open>text[pos:]\<close>; the
  source advances \<^verbatim>\<open>pos\<close> by the end of the match, the model drops that many characters.
\<close>

function parse_inline_formatting :: "string \<Rightarrow> run list" where
  "parse_inline_formatting text =
     (if text = [] then []
      else
        case find_next text of
          None \<Rightarrow>
            (let remaining = unescape_latex text
             in if remaining \<noteq> [] then [add_run remaining] else [])
        | Some (next_match, next_type) \<Rightarrow>
            (let before_text = unescape_latex (take (m_start next_match) text)
             in if before_text \<noteq> [] then [add_run before_text] else [])
            @ match_run next_match next_type
            # parse_inline_formatting (drop (m_end next_match) text))"
  by pat_completeness auto
termination
proof (relation "measure length")
  show "wf (measure length)" by simp
next
  fix rest :: string and x2 next_match next_type
  assume "rest \<noteq> []" "find_next rest = Some x2" "(next_match, next_type) = x2"
  then have "find_next rest = Some (next_match, next_type)" by simp
  from find_next_source[OF this] obtain p where "consuming p" "re_search p rest = Some next_match"
    by blast
  from re_search_bounds[OF this] show "(drop (m_end next_match) rest, rest) \<in> measure length"
    by auto
qed

declare parse_inline_formatting.simps [simp del]

text \<open>
  \<^verbatim>\<open>_process_section\<close>: the title is the first brace argument of a sectioning command
  anywhere in the block; without one nothing is added.
\<close>

definition docx_process_section :: "string \<Rightarrow> nat \<Rightarrow> element list" where
  "docx_process_section block level =
     (case re_search pat_section block of
        None \<Rightarrow> []
      | Some match \<Rightarrow> [Heading level (unescape_latex (group match 1))])"

definition docx_process_paragraph :: "string \<Rightarrow> element list" where
  "docx_process_paragraph block =
     (if strip block = [] then [] else [Paragraph (parse_inline_formatting block)])"

text \<open>
  \<^verbatim>\<open>_process_table\<close>.  The cell assignments stay inside the grid: the row index is below
  the number of rows and the column index is guarded by \<^verbatim>\<open>j < num_cols\<close>.
\<close>

definition enumerate_from0 :: "'a list \<Rightarrow> (nat \<times> 'a) list" where
  "enumerate_from0 xs = zip [0..<length xs] xs"

definition set_cell :: "string list list \<Rightarrow> nat \<Rightarrow> nat \<Rightarrow> string \<Rightarrow> string list list" where
  "set_cell table i j cell_text = table[i := (table ! i)[j := cell_text]]"

definition fill_row :: "nat \<Rightarrow> string list list \<Rightarrow> nat \<times> string \<Rightarrow> string list list" where
  "fill_row num_cols table irow =
     (let cells = map (\<lambda>cell. unescape_latex (strip cell)) (str_split (CHR ''&'') [] (snd irow))
      in foldl (\<lambda>t jc. if fst jc < num_cols then set_cell t (fst irow) (fst jc) (snd jc) else t)
           table (enumerate_from0 cells))"

definition docx_process_table :: "string \<Rightarrow> element list" where
  "docx_process_table block =
     (case re_search pat_tabular block of
        None \<Rightarrow> []
      | Some tabular_match \<Rightarrow>
          (let table_content = group tabular_match 1;
               rows = filter (\<lambda>row. row \<noteq> []) (map strip (str_split bs [bs] table_content));
               rows = filter (\<lambda>row. \<not> prefix [bs] row) rows
           in case rows of
                [] \<Rightarrow> []
              | first_row # _ \<Rightarrow>
                  (let first_row_cells = map strip (str_split (CHR ''&'') [] first_row);
                       num_cols = length first_row_cells;
                       table = replicate (length rows) (replicate num_cols [])
                   in [Table (foldl (fill_row num_cols) table (enumerate_from0 rows))])))"

text \<open>
  \<^verbatim>\<open>_process_figure\<close> asks the file system about the path; what it finds there is a
  parameter of the model.
\<close>

datatype file_status = Missing | Unreadable | Readable

definition docx_process_figure :: "(string \<Rightarrow> file_status) \<Rightarrow> string \<Rightarrow> element list" where
  "docx_process_figure fs block =
     (case re_search pat_includegraphics block of
        None \<Rightarrow> []
      | Some match \<Rightarrow>
          (let image_path = group match 1
           in case fs image_path of
                Readable \<Rightarrow> [Picture image_path]
              | Unreadable \<Rightarrow>
                  [TextParagraph (''[Image file found but could not be added: '' @ image_path @ '']'')]
              | Missing \<Rightarrow>
                  [TextParagraph (''[Image not found at path: '' @ image_path @ '']'')]))"

definition docx_process_list :: "string \<Rightarrow> element list" where
  "docx_process_list block =
     (let is_numbered = str_in (bs # ''begin{enumerate}'') block;
          items = re_findall_item block
      in map (\<lambda>item_text.
                StyledParagraph (unescape_latex (strip item_text))
                  (if is_numbered then ''List Number'' else ''List Bullet''))
           items)"

definition docx_process_centered_text :: "string \<Rightarrow> element list" where
  "docx_process_centered_text block =
     (case re_search (pat_environment ''center'') block of
        None \<Rightarrow> []
      | Some match \<Rightarrow> [CenteredParagraph (unescape_latex (strip (group match 1)))])"

definition docx_process_block :: "(string \<Rightarrow> file_status) \<Rightarrow> string \<Rightarrow> element list" where
  "docx_process_block fs block =
     (if prefix (bs # ''section'') block then docx_process_section block 1
      else if prefix (bs # ''subsection'') block then docx_process_section block 2
      else if prefix (bs # ''subsubsection'') block then docx_process_section block 3
      else if str_in (bs # ''begin{table}'') block then docx_process_table block
      else if str_in (bs # ''begin{figure}'') block then docx_process_figure fs block
      else if str_in (bs # ''begin{itemize}'') block \<or> str_in (bs # ''begin{enumerate}'') block
        then docx_process_list block
      else if str_in (bs # ''begin{center}'') block then docx_process_centered_text block
      else docx_process_paragraph block)"

definition docx_split_into_blocks :: "string \<Rightarrow> string list" where
  "docx_split_into_blocks content = filter (\<lambda>block. block \<noteq> []) (map strip (re_split_blank content))"

text \<open>The first three lines of \<^verbatim>\<open>_parse_latex\<close>: the body between the document markers.\<close>

definition document_body :: "string \<Rightarrow> string" where
  "document_body content =
     (case re_search (pat_environment ''document'') content of
        Some doc_match \<Rightarrow> group doc_match 1
      | None \<Rightarrow> content)"

definition docx_parse_latex :: "(string \<Rightarrow> file_status) \<Rightarrow> string \<Rightarrow> element list" where
  "docx_parse_latex fs content =
     concat (map (docx_process_block fs) (docx_split_into_blocks (document_body content)))"

section \<open>LatexGenerator (latex.py)\<close>

text \<open>
  What the generator reads of a Word paragraph: its text, the name of its style, its runs
  and its alignment (absent when unset or when reading it fails, which the source treats
  alike).  A run may carry a hyperlink object, which may carry an address.
\<close>

record source_run = run +
  run_hyperlink :: "string option option"

datatype alignment = LEFT | CENTER | RIGHT | JUSTIFY

record source_paragraph =
  p_text :: string
  p_style :: string
  p_runs :: "source_run list"
  p_alignment :: "alignment option"

definition braced :: "string \<Rightarrow> string \<Rightarrow> string" where
  "braced cmd arg = bs # cmd @ ''{'' @ arg @ ''}''"

text \<open>The body of the loop over the runs in \<^verbatim>\<open>_process_paragraph\<close>.\<close>

definition latex_run :: "source_run \<Rightarrow> string" where
  "latex_run r =
     (let t = escape_latex (run_text r);
          t = (if run_bold r then braced ''textbf'' t else t);
          t = (if run_italic r then braced ''textit'' t else t);
          t = (if run_underline r then braced ''underline'' t else t)
      in case run_hyperlink r of
           None \<Rightarrow> t
         | Some hyperlink \<Rightarrow>
             (let url = (case hyperlink of Some address \<Rightarrow> address | None \<Rightarrow> [])
              in if url \<noteq> [] then bs # ''href{'' @ url @ ''}{'' @ t @ ''}'' else t))"

definition latex_process_heading :: "source_paragraph \<Rightarrow> string" where
  "latex_process_heading paragraph =
     (let t = escape_latex (p_text paragraph); style_name = p_style paragraph
      in if str_in ''Heading 1'' style_name then braced ''section'' t
         else if str_in ''Heading 2'' style_name then braced ''subsection'' t
         else if str_in ''Heading 3'' style_name then braced ''subsubsection'' t
         else if str_in ''Heading 4'' style_name then braced ''paragraph'' t
         else braced ''subparagraph'' t)"

definition latex_process_paragraph :: "source_paragraph \<Rightarrow> string" where
  "latex_process_paragraph paragraph =
     (if strip (p_text paragraph) = [] then []
      else if prefix ''Heading'' (p_style paragraph) then latex_process_heading paragraph
      else
        let paragraph_text = concat (map latex_run (p_runs paragraph))
        in if p_alignment paragraph = Some CENTER
             then bs # ''begin{center}'' @ [nl] @ paragraph_text @ [nl] @ bs # ''end{center}''
           else if p_alignment paragraph = Some RIGHT
             then bs # ''begin{flushright}'' @ [nl] @ paragraph_text @ [nl] @ bs # ''end{flushright}''
           else paragraph_text)"

text \<open>\<^verbatim>\<open>sep.join(xs)\<close>\<close>

fun str_join :: "'a list \<Rightarrow> 'a list list \<Rightarrow> 'a list" where
  "str_join sep [] = []"
| "str_join sep [x] = x"
| "str_join sep (x # y # ys) = x @ sep @ str_join sep (y # ys)"

text \<open>\<^verbatim>\<open>_process_table\<close> of the generator; a Word table is the rows of its cell texts.\<close>

definition latex_table_row :: "nat \<times> string list \<Rightarrow> string list" where
  "latex_table_row irow =
     (let cells = map (\<lambda>cell. escape_latex (strip cell)) (snd irow);
          row_text = str_join '' & '' cells @ '' '' @ [bs, bs]
      in if fst irow = 0 then [row_text, bs # ''midrule''] else [row_text])"

definition latex_process_table :: "string list list \<Rightarrow> string" where
  "latex_process_table rows =
     (case rows of
        [] \<Rightarrow> []
      | first_row # _ \<Rightarrow>
          (let num_cols = length first_row
           in str_join [nl]
                ([bs # ''begin{table}[h]'',
                  bs # ''centering'',
                  bs # ''begin{tabular}{'' @ str_join ''|'' (replicate num_cols ''l'') @ ''}'',
                  bs # ''toprule'']
                 @ concat (map latex_table_row (enumerate_from0 rows))
                 @ [bs # ''bottomrule'', bs # ''end{tabular}'', bs # ''end{table}''])))"

text \<open>
  A heading of level \<open>n\<close> is a paragraph in the style \<^verbatim>\<open>"Heading %d" % n\<close>; Word has the
  levels 1 to 9.
\<close>

definition digit_char :: "nat \<Rightarrow> char" where
  "digit_char d = ''0123456789'' ! d"

function str_nat :: "nat \<Rightarrow> string" where
  "str_nat n = (if n < 10 then [digit_char n] else str_nat (n div 10) @ [digit_char (n mod 10)])"
  by pat_completeness auto
termination
  by (relation "measure id") auto

declare str_nat.simps [simp del]

definition heading_paragraph :: "nat \<Rightarrow> string \<Rightarrow> source_paragraph" where
  "heading_paragraph level title =
     \<lparr>p_text = title, p_style = ''Heading '' @ str_nat level,
      p_runs = [\<lparr>run_text = title, run_bold = False, run_italic = False,
                 run_underline = False, run_hyperlink = None\<rparr>],
      p_alignment = None\<rparr>"

text \<open>
  The selection of the scanner in the words of its description: the first match of each
  pattern in the unconsumed text, in the order bold, italic, underline, hyperlink, and of
  these the first one that starts no later than any other.
\<close>

definition candidates :: "string \<Rightarrow> (rmatch \<times> fmt_type) list" where
  "candidates rest =
     concat (map (\<lambda>pf. case re_search (fst pf) rest of None \<Rightarrow> [] | Some m \<Rightarrow> [(m, snd pf)])
               patterns)"

definition leftmost_first :: "(rmatch \<times> fmt_type) list \<Rightarrow> (rmatch \<times> fmt_type) option" where
  "leftmost_first cs = find (\<lambda>c. list_all (\<lambda>c'. m_start (fst c) \<le> m_start (fst c')) cs) cs"

definition has_escape_sequence :: "string \<Rightarrow> bool" where
  "has_escape_sequence t = list_ex (\<lambda>ce. str_in (snd ce) t) LATEX_SPECIAL_CHARS"

section \<open>The round trip of the codec\<close>

lemma str_replace_single:
  "str_replace [c] new s = concat (map (\<lambda>x. if x = c then new else [x]) s)"
  by (induction s) auto

lemma str_replace_single_append:
  "str_replace [c] new (s @ r) = str_replace [c] new s @ str_replace [c] new r"
  by (simp add: str_replace_single)

lemma escape_step_append: "escape_step (s @ r) ce = escape_step s ce @ escape_step r ce"
  by (simp add: escape_step_def str_replace_single_append)

lemma foldl_escape_step_append:
  "foldl escape_step (s @ r) tab = foldl escape_step s tab @ foldl escape_step r tab"
  by (induction tab arbitrary: s r) (simp_all add: escape_step_append)

lemma escape_chain_append: "escape_chain (s @ r) = escape_chain s @ escape_chain r"
  by (simp add: escape_chain_def str_replace_single_append foldl_escape_step_append)

lemma escape_chain_Nil: "escape_chain [] = []"
  by (simp add: escape_chain_def escape_step_def LATEX_SPECIAL_CHARS_def)

lemma escape_chain_single: "escape_chain [c] = escape_char c"
  by (simp add: escape_chain_def escape_step_def LATEX_SPECIAL_CHARS_def escape_char_def table_escape_def)

lemma escape_latex_concat: "escape_latex t = concat (map escape_char t)"
proof -
  have "escape_chain t = concat (map escape_char t)"
  proof (induction t)
    case Nil show ?case by (simp add: escape_chain_Nil)
  next
    case (Cons c t)
    have "escape_chain (c # t) = escape_chain ([c] @ t)" by simp
    also have "\<dots> = escape_char c @ escape_chain t"
      by (simp only: escape_chain_append escape_chain_single)
    finally show ?case using Cons by simp
  qed
  moreover have "escape_latex t = escape_chain t"
    using escape_chain_Nil by (simp add: escape_latex_def escape_chain_def)
  ultimately show ?thesis by simp
qed


lemma char_class_cases:
  obtains "c = CHR ''&''" | "c = CHR ''%''" | "c = CHR ''$''" | "c = CHR ''#''" | "c = CHR ''_''"
  | "c = CHR ''{''" | "c = CHR ''}''" | "c = CHR ''~''" | "c = CHR ''^''" | "c = bs"
  | "c \<notin> set ''&%$#_{}~^''" "c \<noteq> bs"
  by auto

lemma unescape_step_Nil: "snd ce \<noteq> [] \<Longrightarrow> unescape_step [] ce = []"
  by (cases "snd ce") (simp_all add: unescape_step_def)

lemma unescape_step_blocks:
  assumes ne: "snd ce \<noteq> []"
    and blk: "\<And>c r. unescape_step (g c @ r) ce = h c @ unescape_step r ce"
  shows "unescape_step (concat (map g t)) ce = concat (map h t)"
  by (induction t) (simp_all add: unescape_step_Nil[OF ne] blk)

lemma foldl_unescape_blocks:
  assumes ne: "\<forall>ce \<in> set tab. snd ce \<noteq> []"
    and blk: "\<And>k c r. k < length tab \<Longrightarrow>
       unescape_step (foldl unescape_step (f c) (take k tab) @ r) (tab ! k)
       = foldl unescape_step (f c) (take (Suc k) tab) @ unescape_step r (tab ! k)"
  shows "foldl unescape_step (concat (map f t)) tab
         = concat (map (\<lambda>c. foldl unescape_step (f c) tab) t)"
  using assms
proof (induction tab rule: rev_induct)
  case Nil
  show ?case by simp
next
  case (snoc ce tab)
  have ne': "\<forall>ce \<in> set tab. snd ce \<noteq> []" using snoc.prems(1) by simp
  have blk': "unescape_step (foldl unescape_step (f c) (take k tab) @ r) (tab ! k)
       = foldl unescape_step (f c) (take (Suc k) tab) @ unescape_step r (tab ! k)"
    if "k < length tab" for k c r
    using snoc.prems(2)[of k c r] that by (simp add: nth_append)
  have IH: "foldl unescape_step (concat (map f t)) tab
         = concat (map (\<lambda>c. foldl unescape_step (f c) tab) t)"
    using snoc.IH[OF ne'] blk' by blast
  have last: "unescape_step (foldl unescape_step (f c) tab @ r) ce
       = unescape_step (foldl unescape_step (f c) tab) ce @ unescape_step r ce" for c r
    using snoc.prems(2)[of "length tab" c r] by simp
  have "snd ce \<noteq> []" using snoc.prems(1) by simp
  from unescape_step_blocks[OF this, of "\<lambda>c. foldl unescape_step (f c) tab"
      "\<lambda>c. unescape_step (foldl unescape_step (f c) tab) ce" t] last
  have "unescape_step (concat (map (\<lambda>c. foldl unescape_step (f c) tab) t)) ce
        = concat (map (\<lambda>c. unescape_step (foldl unescape_step (f c) tab) ce) t)"
    by blast
  then show ?case by (simp add: IH)
qed

lemma less_10_cases:
  "k < length LATEX_SPECIAL_CHARS \<Longrightarrow> k = 0 \<or> k = 1 \<or> k = 2 \<or> k = 3 \<or> k = 4 \<or> k = 5 \<or> k = 6 \<or> k = 7 \<or> k = 8 \<or> k = 9"
  by (simp add: LATEX_SPECIAL_CHARS_def) arith

lemma escape_char_block_step:
  assumes "k < length LATEX_SPECIAL_CHARS"
  shows "unescape_step (foldl unescape_step (escape_char c) (take k LATEX_SPECIAL_CHARS) @ r)
           (LATEX_SPECIAL_CHARS ! k)
       = foldl unescape_step (escape_char c) (take (Suc k) LATEX_SPECIAL_CHARS)
           @ unescape_step r (LATEX_SPECIAL_CHARS ! k)"
proof (cases c rule: char_class_cases)
  case 11
  then have "escape_char c = [c]" by (simp add: escape_char_def table_escape_def LATEX_SPECIAL_CHARS_def)
  with 11 less_10_cases[OF assms] show ?thesis
    by (auto simp add: LATEX_SPECIAL_CHARS_def unescape_step_def)
qed (use less_10_cases[OF assms] in \<open>auto simp add: escape_char_def table_escape_def LATEX_SPECIAL_CHARS_def unescape_step_def\<close>)

lemma escape_char_unescaped:
  "foldl unescape_step (escape_char c) LATEX_SPECIAL_CHARS = [c]"
proof (cases c rule: char_class_cases)
  case 11
  then have "escape_char c = [c]" by (simp add: escape_char_def table_escape_def LATEX_SPECIAL_CHARS_def)
  with 11 show ?thesis
    by (simp add: LATEX_SPECIAL_CHARS_def unescape_step_def)
qed (simp_all add: escape_char_def table_escape_def LATEX_SPECIAL_CHARS_def unescape_step_def)

lemma unescape_escape_all: "unescape_latex (escape_latex t) = t"
proof -
  have ne: "\<forall>ce \<in> set LATEX_SPECIAL_CHARS. snd ce \<noteq> []"
    by (simp add: LATEX_SPECIAL_CHARS_def)
  have "foldl unescape_step (concat (map escape_char t)) LATEX_SPECIAL_CHARS
        = concat (map (\<lambda>c. foldl unescape_step (escape_char c) LATEX_SPECIAL_CHARS) t)"
    by (rule foldl_unescape_blocks[OF ne escape_char_block_step])
  also have "\<dots> = t" by (simp add: escape_char_unescaped)
  finally have chain: "foldl unescape_step (escape_latex t) LATEX_SPECIAL_CHARS = t"
    by (simp add: escape_latex_concat)
  have empty: "foldl unescape_step [] LATEX_SPECIAL_CHARS = []"
    by (simp add: LATEX_SPECIAL_CHARS_def unescape_step_def)
  show ?thesis
  proof (cases "escape_latex t = []")
    case True
    with chain empty have "t = []" by simp
    then show ?thesis by (simp add: unescape_latex_def escape_latex_def)
  next
    case False
    with chain show ?thesis by (simp add: unescape_latex_def)
  qed
qed

text \<open>
  C1.  For every text that contains no escape sequence of the table, unescaping the
  escaped text gives the text back.  (The proof does not need the hypothesis: the escaped
  text is a sequence of blocks, one per character, every replacement of the unescaping
  acts inside one block, and the last one turns the block of the backslash into the
  backslash.)
\<close>

theorem unescape_escape_roundtrip:
  "\<not> has_escape_sequence t \<Longrightarrow> unescape_latex (escape_latex t) = t"
  by (rule unescape_escape_all)

theorem unescape_escape_roundtrip_witness:
  "\<not> has_escape_sequence (''50% of {a_b} & c~d^2 #1 $'' @ [bs] @ ''n'')
   \<and> unescape_latex (escape_latex (''50% of {a_b} & c~d^2 #1 $'' @ [bs] @ ''n''))
       = ''50% of {a_b} & c~d^2 #1 $'' @ [bs] @ ''n''"
  using unescape_escape_roundtrip [of "''50% of {a_b} & c~d^2 #1 $'' @ [bs] @ ''n''"]
  by (simp add: has_escape_sequence_def LATEX_SPECIAL_CHARS_def)

section \<open>Escaping single characters\<close>

text \<open>
  C2.  Escaping a one-character text made of a table character should give exactly the
  sequence the table assigns to it.  For the backslash it does not: the sequence inserted
  for it ends in a pair of braces, and the later replacements of the two braces escape
  them again.  The nine other characters do get their table entry.
\<close>

theorem escape_lone_backslash_reescaped:
  "escape_latex [bs] = bs # ''textbackslash'' @ [bs, CHR ''{'', bs, CHR ''}'']
   \<and> table_escape bs = bs # ''textbackslash{}''
   \<and> escape_latex [bs] \<noteq> table_escape bs
   \<and> list_all (\<lambda>c. escape_latex [c] = table_escape c) ''&%$#_{}~^''"
  by (simp add: escape_latex_def escape_step_def LATEX_SPECIAL_CHARS_def table_escape_def)

section \<open>Headings deeper than level 4\<close>

lemma str_nat_digit: "n < 10 \<Longrightarrow> str_nat n = [digit_char n]"
  by (subst str_nat.simps) simp

text \<open>
  C4, as stated: a heading of a level above 4 gets the command of level 4.  It does not:
  level 5 gets \<^verbatim>\<open>\subparagraph\<close>, level 4 gets \<^verbatim>\<open>\paragraph\<close>.
\<close>

theorem heading_level5_not_folded:
  "latex_process_heading (heading_paragraph 5 ''T'') = bs # ''subparagraph{T}''
   \<and> latex_process_heading (heading_paragraph 4 ''T'') = bs # ''paragraph{T}''
   \<and> latex_process_heading (heading_paragraph 5 ''T'')
       \<noteq> latex_process_heading (heading_paragraph 4 ''T'')"
  by code_simp

text \<open>
  C4, amended.  Every heading of a level from 5 to 9 gets \<^verbatim>\<open>\subparagraph\<close> with the
  escaped title, one command for all these levels, and it is not the \<^verbatim>\<open>\paragraph\<close> that
  level 4 gets.
\<close>

theorem heading_above4_subparagraph:
  assumes "5 \<le> n" and "n \<le> 9"
  shows "latex_process_heading (heading_paragraph n t) = braced ''subparagraph'' (escape_latex t)
   \<and> latex_process_heading (heading_paragraph 4 t) = braced ''paragraph'' (escape_latex t)
   \<and> latex_process_heading (heading_paragraph n t)
       \<noteq> latex_process_heading (heading_paragraph 4 t)"
proof -
  from assms have "n = 5 \<or> n = 6 \<or> n = 7 \<or> n = 8 \<or> n = 9" by arith
  then show ?thesis
    by (auto simp: latex_process_heading_def heading_paragraph_def str_nat_digit digit_char_def
        braced_def Let_def)
qed

theorem heading_above4_subparagraph_witness:
  "(5::nat) \<le> 7 \<and> (7::nat) \<le> 9
   \<and> latex_process_heading (heading_paragraph 7 ''a_b'') = braced ''subparagraph'' (escape_latex ''a_b'')
   \<and> latex_process_heading (heading_paragraph 7 ''a_b'')
       \<noteq> latex_process_heading (heading_paragraph 4 ''a_b'')"
  using heading_above4_subparagraph [of 7 "''a_b''"] by (simp add: braced_def)

section \<open>Headings written and read back\<close>

lemma escape_char_nonempty: "escape_char c \<noteq> []"
  by (cases c rule: char_class_cases)
     (auto simp: escape_char_def table_escape_def LATEX_SPECIAL_CHARS_def)

lemma escape_latex_nonempty: "t \<noteq> [] \<Longrightarrow> escape_latex t \<noteq> []"
  by (cases t) (simp_all add: escape_latex_concat escape_char_nonempty)

lemma escape_char_no_closing_brace:
  "c \<notin> {CHR ''}'', CHR ''~'', CHR ''^'', bs} \<Longrightarrow> CHR ''}'' \<notin> set (escape_char c)"
  by (cases c rule: char_class_cases)
     (auto simp: escape_char_def table_escape_def LATEX_SPECIAL_CHARS_def)

lemma escape_latex_no_closing_brace:
  "\<forall>c \<in> set t. c \<notin> {CHR ''}'', CHR ''~'', CHR ''^'', bs} \<Longrightarrow> CHR ''}'' \<notin> set (escape_latex t)"
  using escape_char_no_closing_brace by (auto simp: escape_latex_concat)

lemma until_char_append:
  "g \<noteq> [] \<Longrightarrow> c \<notin> set g \<Longrightarrow> until_char c (g @ c # r) = Some (g, r)"
proof -
  assume g: "g \<noteq> []" "c \<notin> set g"
  then have "takeWhile (\<lambda>x. x \<noteq> c) (g @ c # r) = g"
    by (subst takeWhile_append2) auto
  moreover from g have "dropWhile (\<lambda>x. x \<noteq> c) (g @ c # r) = c # r"
    by (subst dropWhile_append2) auto
  ultimately show ?thesis using g by (simp add: until_char_def)
qed

lemma brace_arg_append:
  "g \<noteq> [] \<Longrightarrow> CHR ''}'' \<notin> set g \<Longrightarrow> brace_arg (CHR ''{'' # g @ CHR ''}'' # r) = Some (g, r)"
  by (simp add: brace_arg_def strip_prefix_def until_char_append)

lemma section_block:
  assumes "g \<noteq> []" "CHR ''}'' \<notin> set g"
  shows "docx_process_block fs (braced ''section'' g) = [Heading 1 (unescape_latex g)]"
    and "docx_process_block fs (braced ''subsection'' g) = [Heading 2 (unescape_latex g)]"
    and "docx_process_block fs (braced ''subsubsection'' g) = [Heading 3 (unescape_latex g)]"
  using assms
  by (simp_all add: docx_process_block_def braced_def docx_process_section_def pat_section_def
      strip_prefix_def brace_arg_append group_def)

text \<open>
  C3, as stated: for the levels 1 to 4, writing a heading and reading the block back
  gives a heading of the same level.  For level 4 the generator writes \<^verbatim>\<open>\paragraph\<close>,
  which the reader does not know as a heading: the block becomes a plain paragraph whose
  one run is the markup itself.
\<close>

theorem heading_level4_read_as_paragraph:
  "docx_process_block (\<lambda>p. Missing) (latex_process_heading (heading_paragraph 4 ''Title''))
   = [Paragraph [add_run (bs # ''paragraph{Title}'')]]"
  by code_simp

text \<open>
  C3, amended.  For the levels 1 to 3 and every non-empty title without closing brace,
  tilde, circumflex and backslash (the characters whose escape sequence holds a closing
  brace), writing the heading and reading the block back gives exactly one heading, of
  the same level and with the title as it was.
\<close>

theorem heading_roundtrip:
  assumes "level \<in> {1, 2, 3}" and "title \<noteq> []"
    and "set title \<inter> {CHR ''}'', CHR ''~'', CHR ''^'', bs} = {}"
  shows "docx_process_block fs (latex_process_heading (heading_paragraph level title))
         = [Heading level title]"
proof -
  let ?g = "escape_latex title"
  from assms(3) have "\<forall>c \<in> set title. c \<notin> {CHR ''}'', CHR ''~'', CHR ''^'', bs}" by blast
  then have "CHR ''}'' \<notin> set ?g" by (rule escape_latex_no_closing_brace)
  moreover have "?g \<noteq> []" using assms(2) by (rule escape_latex_nonempty)
  ultimately have g: "?g \<noteq> []" "CHR ''}'' \<notin> set ?g" by blast+
  from assms(1) have "level = 1 \<or> level = 2 \<or> level = 3" by auto
  then show ?thesis
    using section_block[OF g, of fs]
    by (auto simp: latex_process_heading_def heading_paragraph_def str_nat_digit digit_char_def
        Let_def unescape_escape_all)
qed

theorem heading_roundtrip_witness:
  "docx_process_block (\<lambda>p. Missing) (latex_process_heading (heading_paragraph 2 ''50% & {more''))
   = [Heading 2 ''50% & {more'']"
  using heading_roundtrip [of 2 "''50% & {more''" "\<lambda>p. Missing"] by simp

section \<open>Runs with a hyperlink\<close>

text \<open>
  C5, as stated: the text argument of the link command is the plain escaped text, the
  flags being dropped.  It is not: a bold run with a link keeps its bold wrapper inside
  the link command.
\<close>

theorem link_bold_run_keeps_wrapper:
  "latex_run \<lparr>run_text = ''a'', run_bold = True, run_italic = False, run_underline = False,
      run_hyperlink = Some (Some ''u'')\<rparr> = bs # ''href{u}{'' @ bs # ''textbf{a}}''
   \<and> latex_run \<lparr>run_text = ''a'', run_bold = True, run_italic = False, run_underline = False,
      run_hyperlink = Some (Some ''u'')\<rparr> \<noteq> bs # ''href{u}{'' @ escape_latex ''a'' @ ''}''"
  by code_simp

text \<open>
  C5, amended.  For every run whose hyperlink has a non-empty address, the generator
  emits the link command with that address, and its text argument is the escaped text
  of the run inside the wrappers of the flags that are set: bold innermost, then italic,
  then underline.
\<close>

theorem link_wraps_formatted_text:
  assumes "run_hyperlink r = Some (Some url)" and "url \<noteq> []"
  shows "latex_run r =
     bs # ''href{'' @ url @ ''}{''
       @ (let t = escape_latex (run_text r);
              t = (if run_bold r then braced ''textbf'' t else t);
              t = (if run_italic r then braced ''textit'' t else t)
          in if run_underline r then braced ''underline'' t else t)
       @ ''}''"
  using assms by (simp add: latex_run_def Let_def)

theorem link_wraps_formatted_text_witness:
  "run_hyperlink \<lparr>run_text = ''x&y'', run_bold = True, run_italic = False, run_underline = True,
      run_hyperlink = Some (Some ''http://e.org'')\<rparr> = Some (Some ''http://e.org'')
   \<and> ''http://e.org'' \<noteq> []
   \<and> latex_run \<lparr>run_text = ''x&y'', run_bold = True, run_italic = False, run_underline = True,
      run_hyperlink = Some (Some ''http://e.org'')\<rparr>
     = bs # ''href{http://e.org}{'' @ bs # ''underline{'' @ bs # ''textbf{x'' @ bs # ''&y}}}''"
proof -
  have e: "escape_latex ''x&y'' = ''x'' @ bs # ''&y''" by code_simp
  show ?thesis
    using link_wraps_formatted_text [of "\<lparr>run_text = ''x&y'', run_bold = True, run_italic = False,
      run_underline = True, run_hyperlink = Some (Some ''http://e.org'')\<rparr>" "''http://e.org''"]
    by (simp add: e braced_def)
qed

section \<open>The inline scanner\<close>

lemma find_next_leftmost: "find_next rest = leftmost_first (candidates rest)"
  unfolding find_next_def patterns_def candidates_def leftmost_first_def next_step_def
  by (auto split: option.splits)

lemma re_search_leftmost:
  "re_search p s = Some m \<Longrightarrow>
     p (drop (m_start m) s) \<noteq> None \<and> (\<forall>i < m_start m. p (drop i s) = None)"
proof (induction s arbitrary: m)
  case Nil then show ?case by auto
next
  case (Cons x xs)
  show ?case
  proof (cases "p (x # xs)")
    case None
    with Cons.prems obtain m' where m': "re_search p xs = Some m'"
      and st: "m_start m = Suc (m_start m')" by auto
    from Cons.IH[OF m'] have here: "p (drop (m_start m') xs) \<noteq> None"
      and before: "\<forall>i < m_start m'. p (drop i xs) = None" by blast+
    have "p (drop i (x # xs)) = None" if "i < m_start m" for i
      using that None before st by (cases i) auto
    with here st show ?thesis by simp
  next
    case (Some a)
    with Cons.prems show ?thesis by (cases a) auto
  qed
qed

text \<open>
  C8.  For every text the scanner takes, of the first matches of the four patterns in the
  unconsumed text, the one that starts at the lowest offset, the earlier pattern winning
  a tie; it adds the unescaped text in front of the match as a plain run (if there is
  any), then the run of the match, and goes on behind the end of the match, so matched
  text is never scanned again; without a match the rest is one plain run.  On the text
  \<^verbatim>\<open>plain \textbf{bold} then \textit{italic}\<close> the runs are: plain, bold "bold", plain,
  italic "italic".
\<close>

theorem inline_scanner_leftmost_first:
  "parse_inline_formatting rest =
     (if rest = [] then []
      else
        case leftmost_first (candidates rest) of
          None \<Rightarrow> (if unescape_latex rest \<noteq> [] then [add_run (unescape_latex rest)] else [])
        | Some (m, ty) \<Rightarrow>
            (if unescape_latex (take (m_start m) rest) \<noteq> []
             then [add_run (unescape_latex (take (m_start m) rest))] else [])
            @ match_run m ty # parse_inline_formatting (drop (m_end m) rest))
   \<and> parse_inline_formatting (''plain '' @ bs # ''textbf{bold} then '' @ bs # ''textit{italic}'')
      = [\<lparr>run_text = ''plain '', run_bold = False, run_italic = False, run_underline = False\<rparr>,
         \<lparr>run_text = ''bold'', run_bold = True, run_italic = False, run_underline = False\<rparr>,
         \<lparr>run_text = '' then '', run_bold = False, run_italic = False, run_underline = False\<rparr>,
         \<lparr>run_text = ''italic'', run_bold = False, run_italic = True, run_underline = False\<rparr>]"
proof (rule conjI)
  show "parse_inline_formatting rest =
     (if rest = [] then []
      else
        case leftmost_first (candidates rest) of
          None \<Rightarrow> (if unescape_latex rest \<noteq> [] then [add_run (unescape_latex rest)] else [])
        | Some (m, ty) \<Rightarrow>
            (if unescape_latex (take (m_start m) rest) \<noteq> []
             then [add_run (unescape_latex (take (m_start m) rest))] else [])
            @ match_run m ty # parse_inline_formatting (drop (m_end m) rest))"
    by (subst parse_inline_formatting.simps)
       (simp add: find_next_leftmost Let_def split: option.splits)
next
  show "parse_inline_formatting (''plain '' @ bs # ''textbf{bold} then '' @ bs # ''textit{italic}'')
      = [\<lparr>run_text = ''plain '', run_bold = False, run_italic = False, run_underline = False\<rparr>,
         \<lparr>run_text = ''bold'', run_bold = True, run_italic = False, run_underline = False\<rparr>,
         \<lparr>run_text = '' then '', run_bold = False, run_italic = False, run_underline = False\<rparr>,
         \<lparr>run_text = ''italic'', run_bold = False, run_italic = True, run_underline = False\<rparr>]"
    by code_simp
qed

lemma find_next_pattern:
  "find_next rest = Some (m, ty) \<Longrightarrow> \<exists>p. (p, ty) \<in> set patterns \<and> re_search p rest = Some m"
proof -
  let ?ok = "\<lambda>nxt. case nxt of None \<Rightarrow> True
     | Some (m, ty) \<Rightarrow> \<exists>p. (p, ty) \<in> set patterns \<and> re_search p rest = Some m"
  have step: "?ok nxt \<Longrightarrow> pf \<in> set patterns \<Longrightarrow> ?ok (next_step rest nxt pf)" for nxt pf
    by (cases pf) (auto simp: next_step_def split: option.splits)
  have "set ps \<subseteq> set patterns \<Longrightarrow> ?ok nxt \<Longrightarrow> ?ok (foldl (next_step rest) nxt ps)" for ps nxt
  proof (induction ps arbitrary: nxt)
    case Nil then show ?case by simp
  next
    case (Cons pf ps)
    from Cons.prems have "?ok (next_step rest nxt pf)" by (intro step) auto
    with Cons show ?case by simp
  qed
  from this[of patterns None] have "?ok (find_next rest)" by (simp add: find_next_def)
  then show "find_next rest = Some (m, ty) \<Longrightarrow> ?thesis" by simp
qed

lemma re_search_groups:
  "re_search p s = Some m \<Longrightarrow> \<exists>s' r. p s' = Some (m_groups m, r)"
proof (induction s arbitrary: m)
  case Nil
  then obtain gs r where "p [] = Some (gs, r)" "m_groups m = gs" by auto
  then show ?case by blast
next
  case (Cons x xs)
  show ?case
  proof (cases "p (x # xs)")
    case None
    with Cons.prems obtain m' where "re_search p xs = Some m'" "m_groups m = m_groups m'" by auto
    with Cons.IH[of m'] show ?thesis by simp
  next
    case (Some a)
    with Cons.prems obtain gs r where "p (x # xs) = Some (gs, r)" "m_groups m = gs"
      by (cases a) auto
    then show ?thesis by blast
  qed
qed

lemma until_char_nonempty: "until_char c s = Some (g, r) \<Longrightarrow> g \<noteq> []"
  by (auto simp: until_char_def Let_def split: if_splits)

lemma brace_arg_nonempty: "brace_arg s = Some (g, r) \<Longrightarrow> g \<noteq> []"
  by (auto simp: brace_arg_def split: option.splits dest: until_char_nonempty)

lemma pat_command_groups: "pat_command cmd s = Some (gs, r) \<Longrightarrow> \<exists>g. gs = [g] \<and> g \<noteq> []"
  by (auto simp: pat_command_def split: option.splits dest: brace_arg_nonempty)

lemma pat_href_groups:
  "pat_href s = Some (gs, r) \<Longrightarrow> \<exists>u t. gs = [u, t] \<and> u \<noteq> [] \<and> t \<noteq> []"
  using brace_arg_nonempty by (fastforce simp: pat_href_def split: option.splits)

lemma find_next_group:
  assumes "find_next rest = Some (m, ty)"
  shows "group m (if ty = Hyperlink then 2 else 1) \<noteq> []"
proof -
  from find_next_pattern[OF assms] obtain p where p: "(p, ty) \<in> set patterns"
    and "re_search p rest = Some m" by blast
  from re_search_groups[OF this(2)] obtain s' r where m: "p s' = Some (m_groups m, r)" by blast
  from p m show ?thesis
    by (auto simp: patterns_def group_def dest!: pat_command_groups pat_href_groups)
qed

lemma str_replace_nonempty: "new \<noteq> [] \<Longrightarrow> s \<noteq> [] \<Longrightarrow> str_replace old new s \<noteq> []"
  by (cases old; cases s) auto

lemma unescape_latex_nonempty: "s \<noteq> [] \<Longrightarrow> unescape_latex s \<noteq> []"
proof -
  have "s \<noteq> [] \<Longrightarrow> foldl unescape_step s tab \<noteq> []" for tab
    by (induction tab arbitrary: s) (simp_all add: unescape_step_def str_replace_nonempty)
  then show "s \<noteq> [] \<Longrightarrow> ?thesis" by (simp add: unescape_latex_def)
qed

lemma match_run_text:
  "run_text (match_run m ty) = unescape_latex (group m (if ty = Hyperlink then 2 else 1))"
  by (cases ty) (simp_all add: match_run_def add_run_def Let_def)

lemma inline_runs_text:
  "\<forall>r \<in> set (parse_inline_formatting rest). run_text r \<noteq> []"
proof (induction rest rule: parse_inline_formatting.induct)
  case (1 rest)
  show ?case
  proof (cases "rest = []")
    case True then show ?thesis by (subst parse_inline_formatting.simps) simp
  next
    case ne: False
    show ?thesis
    proof (cases "find_next rest")
      case None
      with ne show ?thesis
        by (subst parse_inline_formatting.simps) (simp add: Let_def add_run_def)
    next
      case (Some a)
      obtain m ty where a: "a = (m, ty)" by (cases a)
      from Some a have fn: "find_next rest = Some (m, ty)" by simp
      have IH: "\<forall>r \<in> set (parse_inline_formatting (drop (m_end m) rest)). run_text r \<noteq> []"
        using "1.IH"[OF ne Some a[symmetric]] .
      have "run_text (match_run m ty) \<noteq> []"
        using find_next_group[OF fn] by (simp add: match_run_text unescape_latex_nonempty)
      with IH fn ne show ?thesis
        by (subst parse_inline_formatting.simps) (auto simp: Let_def add_run_def)
    qed
  qed
qed

text \<open>
  C10.  Every run the scanner adds has a non-empty text, and the group the scanner reads
  from a match (group 2 of a hyperlink, group 1 of the others) is never empty.
\<close>

theorem inline_runs_nonempty:
  "(\<forall>r \<in> set (parse_inline_formatting rest). run_text r \<noteq> [])
   \<and> (\<forall>m ty. find_next rest = Some (m, ty) \<longrightarrow> group m (if ty = Hyperlink then 2 else 1) \<noteq> [])"
  using inline_runs_text find_next_group by blast

theorem inline_runs_nonempty_witness:
  "list_all (\<lambda>r. run_text r \<noteq> [])
     (parse_inline_formatting (bs # ''textbf{a}'' @ bs # ''textit{}'' @ bs # ''href{u}{v}''))
   \<and> length (parse_inline_formatting (bs # ''textbf{a}'' @ bs # ''textit{}'' @ bs # ''href{u}{v}'')) = 3"
proof -
  have "length (parse_inline_formatting (bs # ''textbf{a}'' @ bs # ''textit{}'' @ bs # ''href{u}{v}'')) = 3"
    by code_simp
  then show ?thesis
    using inline_runs_nonempty [of "bs # ''textbf{a}'' @ bs # ''textit{}'' @ bs # ''href{u}{v}''"]
    by (simp add: list_all_iff)
qed

section \<open>The body between the document markers\<close>

lemma prefix_append_short: "prefix p (a @ b) \<Longrightarrow> length p \<le> length a \<Longrightarrow> prefix p a"
  by (auto simp: prefix_append)

lemma no_early_occurrence:
  assumes "lit \<noteq> []" and "\<not> str_in lit (pre @ butlast lit)" and "i < length pre"
  shows "\<not> prefix lit (drop i (pre @ lit @ rest))"
  using assms(2,3)
proof (induction pre arbitrary: i)
  case Nil then show ?case by simp
next
  case (Cons x pre)
  show ?case
  proof (cases i)
    case 0
    have "x # pre @ lit @ rest = (x # pre @ butlast lit) @ (last lit # rest)"
      using assms(1) by simp
    moreover have "length lit \<le> length (x # pre @ butlast lit)" by simp
    ultimately have "prefix lit (x # pre @ lit @ rest) \<Longrightarrow> prefix lit (x # pre @ butlast lit)"
      using prefix_append_short by metis
    with Cons.prems 0 show ?thesis by auto
  next
    case (Suc j)
    with Cons show ?thesis by auto
  qed
qed

lemma lazy_until_first:
  assumes "lit \<noteq> []" and "\<not> str_in lit (g @ butlast lit)"
  shows "lazy_until lit (g @ lit @ r) = Some (g, r)"
  using assms(2)
proof (induction g)
  case Nil
  with assms(1) show ?case by (cases lit) simp_all
next
  case (Cons x g)
  from no_early_occurrence[OF assms(1) Cons.prems, of 0 r]
  have "\<not> prefix lit (x # g @ lit @ r)" by simp
  moreover from Cons.prems have "\<not> str_in lit (g @ butlast lit)" by simp
  ultimately show ?case using Cons.IH by simp
qed

lemma lazy_until_Some: "lazy_until lit s = Some (g, r) \<Longrightarrow> s = g @ lit @ r"
proof (induction s arbitrary: g)
  case Nil then show ?case by (auto split: if_splits)
next
  case (Cons x xs)
  then show ?case by (auto simp: prefix_def split: if_splits)
qed

lemma re_search_first:
  assumes "\<forall>i < length pre. p (drop i (pre @ s)) = None" and "p s = Some (gs, r)" and "s \<noteq> []"
  shows "re_search p (pre @ s)
         = Some \<lparr>m_start = length pre, m_end = length pre + (length s - length r), m_groups = gs\<rparr>"
  using assms(1)
proof (induction pre)
  case Nil
  with assms(2,3) show ?case by (cases s) simp_all
next
  case (Cons x pre)
  from Cons.prems have "p (drop 0 ((x # pre) @ s)) = None" by blast
  then have here: "p (x # pre @ s) = None" by simp
  have "\<forall>i < length pre. p (drop i (pre @ s)) = None"
  proof (intro allI impI)
    fix i assume "i < length pre"
    then have "Suc i < length (x # pre)" by simp
    with Cons.prems have "p (drop (Suc i) ((x # pre) @ s)) = None" by blast
    then show "p (drop i (pre @ s)) = None" by simp
  qed
  from Cons.IH[OF this] here show ?case by simp
qed

lemma re_search_Some_at:
  "re_search p s = Some m \<Longrightarrow> \<exists>r. p (drop (m_start m) s) = Some (m_groups m, r)"
proof (induction s arbitrary: m)
  case Nil then show ?case by auto
next
  case (Cons x xs)
  show ?case
  proof (cases "p (x # xs)")
    case None
    with Cons.prems obtain m' where m': "re_search p xs = Some m'"
      and "m_start m = Suc (m_start m')" "m_groups m = m_groups m'" by auto
    with Cons.IH[OF m'] show ?thesis by simp
  next
    case (Some a)
    with Cons.prems show ?thesis by (cases a) auto
  qed
qed

lemma strip_prefix_Some: "strip_prefix p s = Some r \<Longrightarrow> s = p @ r"
  by (auto simp: strip_prefix_def prefix_def split: if_splits)

lemma pat_environment_Some:
  "pat_environment name s = Some (gs, r) \<Longrightarrow>
     \<exists>g. gs = [g] \<and> s = (bs # ''begin{'' @ name @ ''}'') @ g @ (bs # ''end{'' @ name @ ''}'') @ r"
  by (auto simp: pat_environment_def split: option.splits
      dest!: strip_prefix_Some lazy_until_Some)

lemma document_body_pair:
  assumes "content = pre @ (bs # ''begin{document}'') @ body @ (bs # ''end{document}'') @ post"
    and "\<not> str_in (bs # ''begin{document}'') (pre @ butlast (bs # ''begin{document}''))"
    and "\<not> str_in (bs # ''end{document}'') (body @ butlast (bs # ''end{document}''))"
  shows "document_body content = body"
proof -
  let ?B = "bs # ''begin{document}''" and ?E = "bs # ''end{document}''"
  let ?s = "?B @ body @ ?E @ post"
  let ?p = "pat_environment ''document''"
  have lz: "lazy_until ?E (body @ ?E @ post) = Some (body, post)"
    by (rule lazy_until_first[OF _ assms(3)]) simp
  have here: "?p ?s = Some ([body], post)"
    using lz by (simp add: pat_environment_def strip_prefix_def)
  have before: "\<forall>i < length pre. ?p (drop i (pre @ ?s)) = None"
  proof (intro allI impI)
    fix i assume "i < length pre"
    from no_early_occurrence[OF _ assms(2) this, of "body @ ?E @ post"]
    have "\<not> prefix ?B (drop i (pre @ ?s))" by simp
    then show "?p (drop i (pre @ ?s)) = None"
      by (simp add: pat_environment_def strip_prefix_def)
  qed
  from re_search_first[OF before here] have "re_search ?p (pre @ ?s)
     = Some \<lparr>m_start = length pre, m_end = length pre + (length ?s - length post), m_groups = [body]\<rparr>"
    by simp
  with assms(1) show ?thesis by (simp add: document_body_def group_def)
qed

lemma document_body_no_pair:
  assumes "\<forall>pre body post. content \<noteq> pre @ (bs # ''begin{document}'') @ body @ (bs # ''end{document}'') @ post"
  shows "document_body content = content"
proof (cases "re_search (pat_environment ''document'') content")
  case None then show ?thesis by (simp add: document_body_def)
next
  case (Some m)
  from re_search_Some_at[OF Some] obtain r where
    "pat_environment ''document'' (drop (m_start m) content) = Some (m_groups m, r)" by blast
  from pat_environment_Some[OF this] obtain g where
    "drop (m_start m) content = (bs # ''begin{document}'') @ g @ (bs # ''end{document}'') @ r"
    by auto
  then have "content = take (m_start m) content @ (bs # ''begin{document}'') @ g @ (bs # ''end{document}'') @ r"
    by (metis append_take_drop_id)
  with assms show ?thesis by blast
qed

lemma str_in_appendI: "str_in sub (a @ sub @ b)"
proof (induction a)
  case Nil
  show ?case
  proof (cases "sub @ b")
    case Nil
    then show ?thesis by simp
  next
    case (Cons y ys)
    have "prefix sub (sub @ b)" by simp
    with Cons show ?thesis by simp
  qed
next
  case (Cons x a)
  then show ?case by simp
qed

text \<open>
  C9.  When the text is a prefix, the begin marker, a body, the end marker and a rest,
  where the begin marker does not occur earlier (it is the first one) and the end marker
  does not occur earlier behind it (it is the first one that follows), then the body of
  the document is exactly that body, whatever the rest holds, further end markers
  included.  When the text has no begin marker followed by an end marker, the whole text
  is the body.
\<close>

theorem document_body_first_markers:
  "(content = pre @ (bs # ''begin{document}'') @ body @ (bs # ''end{document}'') @ post
      \<and> \<not> str_in (bs # ''begin{document}'') (pre @ butlast (bs # ''begin{document}''))
      \<and> \<not> str_in (bs # ''end{document}'') (body @ butlast (bs # ''end{document}''))
    \<longrightarrow> document_body content = body)
   \<and> ((\<forall>pre body post.
         content \<noteq> pre @ (bs # ''begin{document}'') @ body @ (bs # ''end{document}'') @ post)
    \<longrightarrow> document_body content = content)"
  using document_body_pair document_body_no_pair by blast

text \<open>
  The witness: a document whose table cell holds the end marker is cut there, and a text
  with a begin marker but no end marker is taken whole.
\<close>

theorem document_body_first_markers_witness:
  "document_body
     (bs # ''documentclass{article}'' @ bs # ''begin{document}'' @ ''a & ''
        @ bs # ''end{document}'' @ '' & b'' @ bs # ''end{document}'')
   = ''a & ''
   \<and> document_body (''no '' @ bs # ''begin{document}'' @ '' end'')
     = ''no '' @ bs # ''begin{document}'' @ '' end''"
proof (rule conjI)
  have "\<not> str_in (bs # ''begin{document}'')
          ((bs # ''documentclass{article}'') @ butlast (bs # ''begin{document}''))"
    by code_simp
  moreover have "\<not> str_in (bs # ''end{document}'') (''a & '' @ butlast (bs # ''end{document}''))"
    by code_simp
  ultimately show "document_body
     (bs # ''documentclass{article}'' @ bs # ''begin{document}'' @ ''a & ''
        @ bs # ''end{document}'' @ '' & b'' @ bs # ''end{document}'')
   = ''a & ''"
    using document_body_first_markers
      [of "(bs # ''documentclass{article}'') @ (bs # ''begin{document}'') @ ''a & ''
             @ (bs # ''end{document}'') @ ('' & b'' @ bs # ''end{document}'')"
          "bs # ''documentclass{article}''" "''a & ''" "'' & b'' @ bs # ''end{document}''"]
    by simp
next
  let ?c = "''no '' @ bs # ''begin{document}'' @ '' end''"
  have no_end: "\<not> str_in (bs # ''end{document}'') ?c" by code_simp
  have "?c \<noteq> pre @ (bs # ''begin{document}'') @ body @ (bs # ''end{document}'') @ post"
    for pre body post
  proof
    assume "?c = pre @ (bs # ''begin{document}'') @ body @ (bs # ''end{document}'') @ post"
    then have "?c = (pre @ (bs # ''begin{document}'') @ body) @ (bs # ''end{document}'') @ post"
      by simp
    then have "str_in (bs # ''end{document}'') ?c"
      using str_in_appendI[of "bs # ''end{document}''" "pre @ (bs # ''begin{document}'') @ body" post]
      by simp
    with no_end show False by contradiction
  qed
  then show "document_body ?c = ?c"
    using document_body_first_markers [of ?c] by blast
qed

section \<open>Tables and lists read back from markup\<close>

text \<open>
  A table whose rows do not start with a backslash: the first row fixes three columns, the
  longer row loses its cells beyond the third, and the shorter row leaves its third cell
  as the grid created it, empty.
\<close>

lemma table_rows_example:
  "docx_process_table
     (bs # ''begin{tabular}{lll}a & b & c'' @ [bs, bs] @ ''d & e & f & g & h'' @ [bs, bs]
        @ ''i & j'' @ [bs, bs] @ bs # ''end{tabular}'')
   = [Table [[''a'', ''b'', ''c''], [''d'', ''e'', ''f''], [''i'', ''j'', []]]]"
  by code_simp

text \<open>
  C6.  Rows that hold cell data should be kept and only rule lines dropped.  The table
  the generator itself writes for two rows is read back as no table at all: the text is
  split at the row terminators, so \<^verbatim>\<open>\toprule\<close> stands in front of the first row and
  \<^verbatim>\<open>\midrule\<close> in front of the second, and both pieces are dropped because they start with
  a backslash.  Of three rows only the third survives.
\<close>

theorem table_data_rows_dropped:
  "docx_process_block (\<lambda>p. Missing) (latex_process_table [[''A'', ''B''], [''C'', ''D'']]) = []
   \<and> docx_process_block (\<lambda>p. Missing)
       (latex_process_table [[''A'', ''B''], [''C'', ''D''], [''E'', ''F'']])
     = [Table [[''E'', ''F'']]]"
  by code_simp

text \<open>
  What the item pattern captures holds no backslash, so unescaping it changes nothing.
\<close>

lemma item_backtrack_chars:
  "item_backtrack k r = Some (g, rest) \<Longrightarrow> bs \<notin> set g"
proof (induction k)
  case 0 then show ?case by simp
next
  case (Suc k)
  show ?case
  proof (cases "takeWhile item_char (drop (Suc k) r) = []")
    case True
    with Suc show ?thesis by (simp add: Let_def)
  next
    case False
    with Suc.prems have "g = takeWhile item_char (drop (Suc k) r)" by (simp add: Let_def)
    then have "\<forall>c \<in> set g. item_char c" by (auto dest: set_takeWhileD)
    then show ?thesis by (auto simp: item_char_def)
  qed
qed

lemma pat_item_group: "pat_item s = Some (gs, r) \<Longrightarrow> \<exists>g. gs = [g] \<and> bs \<notin> set g"
  by (auto simp: pat_item_def split: option.splits dest: item_backtrack_chars)

lemma str_replace_absent: "a \<notin> set s \<Longrightarrow> str_replace (a # old) new s = s"
  by (induction s) auto

lemma unescape_latex_no_backslash: "bs \<notin> set s \<Longrightarrow> unescape_latex s = s"
  by (simp add: unescape_latex_def LATEX_SPECIAL_CHARS_def unescape_step_def str_replace_absent)

lemma set_strip: "set (strip s) \<subseteq> set s"
proof -
  have "set (dropWhile is_space (rev (dropWhile is_space s))) \<subseteq> set (rev (dropWhile is_space s))"
    by (rule set_dropWhileD[THEN subsetI])
  also have "\<dots> \<subseteq> set s" by (auto dest: set_dropWhileD)
  finally show ?thesis by (simp add: strip_def)
qed

lemma list_item_unescape_idle:
  assumes "re_search pat_item block = Some m"
  shows "unescape_latex (strip (group m 1)) = strip (group m 1)"
proof -
  from re_search_groups[OF assms] obtain s' r where "pat_item s' = Some (m_groups m, r)" by blast
  from pat_item_group[OF this] have "bs \<notin> set (group m 1)" by (auto simp: group_def)
  with set_strip[of "group m 1"] have "bs \<notin> set (strip (group m 1))" by blast
  then show ?thesis by (rule unescape_latex_no_backslash)
qed

text \<open>
  C7.  An item's text should run to the next line break or item marker and be unescaped.
  The item pattern stops at every backslash, so an item with an escaped character is cut
  in front of the escape sequence, and the unescaping that follows has nothing to do.
\<close>

theorem list_item_cut_at_escape:
  "docx_process_block (\<lambda>p. Missing)
     (bs # ''begin{itemize}'' @ [nl] @ bs # ''item 50'' @ bs # ''% off'' @ [nl]
        @ bs # ''end{itemize}'')
   = [StyledParagraph ''50'' ''List Bullet'']
   \<and> unescape_latex (''50'' @ bs # ''% off'') = ''50% off''"
  by code_simp

end
